theory Spec2Isabelle
  imports Complex_Main
begin

section \<open>Regnier problem: similarity matrix, model generation, cut heuristics, decoding\<close>

text \<open>
  The development follows \<^verbatim>\<open>RegnierProblem.py\<close>. Python exceptions are values of
  \<open>py_error\<close>; a computation that may raise returns \<open>py_error + 'a\<close>. Python integers
  are \<open>int\<close>; loop counters and list indices, which are never negative here, are \<open>nat\<close>.
\<close>

datatype py_error = ZeroDivisionError | IndexError

subsection \<open>Loops that may raise\<close>

text \<open>
  \<^verbatim>\<open>for x in xs: s = body(s, x)\<close>, where the body may raise: the first exception
  ends the loop and is the result.
\<close>

fun for_each :: "('s \<Rightarrow> 'a \<Rightarrow> py_error + 's) \<Rightarrow> 'a list \<Rightarrow> 's \<Rightarrow> py_error + 's" where
  "for_each body [] s = Inr s"
| "for_each body (x # xs) s =
     (case body s x of Inl e \<Rightarrow> Inl e | Inr s' \<Rightarrow> for_each body xs s')"

subsection \<open>The constructor: dataset dimensions and similarity matrix\<close>

record regnier =
  rp_S :: "int list list"
  rp_n :: nat
  rp_m :: nat

text \<open>\<^verbatim>\<open>D[i][k]\<close> with non-negative indices: out of range raises IndexError.\<close>

definition cell :: "string list list \<Rightarrow> nat \<Rightarrow> nat \<Rightarrow> py_error + string" where
  "cell D i k =
     (if i < length D then
        (if k < length (D ! i) then Inr (D ! i ! k) else Inl IndexError)
      else Inl IndexError)"

text \<open>
  Reading the rows: \<open>n\<close> counts the rows and \<open>m\<close> counts every cell of every row;
  after the loop \<^verbatim>\<open>m = m // n\<close>. The argument \<open>D\<close> is the list of rows the csv
  reader yields.
\<close>

definition count_rows :: "string list list \<Rightarrow> nat \<times> nat" where
  "count_rows D = foldl (\<lambda>(n, m) row. (n + 1, foldl (\<lambda>m v. m + 1) m row)) (0, 0) D"

definition dimensions :: "string list list \<Rightarrow> py_error + (nat \<times> nat)" where
  "dimensions D =
     (case count_rows D of (n, m) \<Rightarrow>
        if n = 0 then Inl ZeroDivisionError else Inr (n, m div n))"

text \<open>The matrix filled with the sentinel \<^verbatim>\<open>-m-1\<close>.\<close>

definition initial_S :: "nat \<Rightarrow> nat \<Rightarrow> int list list" where
  "initial_S n m = replicate n (replicate n (- int m - 1))"

text \<open>
  One attribute \<open>k\<close> of the pair \<open>(i, j)\<close>; the state is \<open>(tot, tot_missing)\<close>, the
  source's \<^verbatim>\<open>total\<close> and \<^verbatim>\<open>total_missing\<close>.
  Python's \<^verbatim>\<open>and\<close> does not read \<^verbatim>\<open>D[j][k]\<close> when \<^verbatim>\<open>D[i][k]\<close> is missing.
\<close>

definition attribute_step ::
  "string list list \<Rightarrow> nat \<Rightarrow> nat \<Rightarrow> int \<times> int \<Rightarrow> nat \<Rightarrow> py_error + (int \<times> int)" where
  "attribute_step D i j tm k =
     (case tm of (tot, tot_missing) \<Rightarrow>
        (case cell D i k of
           Inl e \<Rightarrow> Inl e
         | Inr a \<Rightarrow>
             if a \<noteq> ''?'' then
               (case cell D j k of
                  Inl e \<Rightarrow> Inl e
                | Inr b \<Rightarrow>
                    if b \<noteq> ''?'' then
                      (if a = b then Inr (tot + 1, tot_missing)
                       else Inr (tot, tot_missing))
                    else Inr (tot, tot_missing + 1))
             else Inr (tot, tot_missing + 1)))"

text \<open>The entry for the pair \<open>(i, j)\<close>: \<^verbatim>\<open>-((m - total_missing) - 2*total)\<close>.\<close>

definition pair_similarity :: "string list list \<Rightarrow> nat \<Rightarrow> nat \<Rightarrow> nat \<Rightarrow> py_error + int" where
  "pair_similarity D m i j =
     (case for_each (attribute_step D i j) [0..<m] (0, 0) of
        Inl e \<Rightarrow> Inl e
      | Inr (tot, tot_missing) \<Rightarrow> Inr (- ((int m - tot_missing) - 2 * tot)))"

definition column_step ::
  "string list list \<Rightarrow> nat \<Rightarrow> nat \<Rightarrow> int list list \<Rightarrow> nat \<Rightarrow> py_error + int list list" where
  "column_step D m i S j =
     (if i \<noteq> j then
        (case pair_similarity D m i j of
           Inl e \<Rightarrow> Inl e
         | Inr v \<Rightarrow> Inr (S[i := (S ! i)[j := v]]))
      else Inr S)"

definition row_step ::
  "string list list \<Rightarrow> nat \<Rightarrow> nat \<Rightarrow> int list list \<Rightarrow> nat \<Rightarrow> py_error + int list list" where
  "row_step D n m S i = for_each (column_step D m i) [0..<n] S"

definition init :: "string list list \<Rightarrow> py_error + regnier" where
  "init D =
     (case dimensions D of
        Inl e \<Rightarrow> Inl e
      | Inr (n, m) \<Rightarrow>
          (case for_each (row_step D n m) [0..<n] (initial_S n m) of
             Inl e \<Rightarrow> Inl e
           | Inr S \<Rightarrow> Inr \<lparr>rp_S = S, rp_n = n, rp_m = m\<rparr>))"

subsection \<open>The CPLEX model: variables and triangle constraints\<close>

text \<open>
  The model handed to the solver: the variables in the order they are added (the position
  of a variable is its index, \<^verbatim>\<open>variables.get_num()\<close> at the time it is added), and
  the linear constraints in the order they are added. Variable names (\<^verbatim>\<open>v.i.j\<close>) are
  labels only and are left out.
\<close>

datatype var_type = continuous | binary

record variable =
  var_obj :: int
  var_lb :: int
  var_ub :: int
  var_types :: var_type

record linear_constraint =
  the_vars :: "nat list"
  the_coefs :: "int list"
  senses :: string
  rhs :: int

record cplex =
  variables :: "variable list"
  linear_constraints :: "linear_constraint list"

text \<open>The variables matrix \<open>X\<close>, all zero at first.\<close>

definition zero_matrix :: "nat \<Rightarrow> nat list list" where
  "zero_matrix n = replicate n (replicate n 0)"

text \<open>The pairs \<open>i < j\<close> in the order of \<^verbatim>\<open>for i in range(n): for j in range(i+1,n)\<close>.\<close>

definition pairs :: "nat \<Rightarrow> (nat \<times> nat) list" where
  "pairs n = [(i, j). i \<leftarrow> [0..<n], j \<leftarrow> [i + 1..<n]]"

text \<open>\<^verbatim>\<open>X[i][j] = get_num(); variables.add(obj=[S[i][j]], lb=[0], ub=[1], types=[...])\<close>\<close>

definition add_variable ::
  "int list list \<Rightarrow> var_type \<Rightarrow> nat list list \<times> variable list \<Rightarrow> nat \<times> nat
     \<Rightarrow> nat list list \<times> variable list" where
  "add_variable S ty Xv ij =
     (case Xv of (X, vars) \<Rightarrow> case ij of (i, j) \<Rightarrow>
        (X[i := (X ! i)[j := length vars]],
         vars @ [\<lparr>var_obj = S ! i ! j, var_lb = 0, var_ub = 1, var_types = ty\<rparr>]))"

definition create_variables :: "regnier \<Rightarrow> bool \<Rightarrow> nat list list \<times> variable list" where
  "create_variables st lp_problem =
     foldl (add_variable (rp_S st) (if lp_problem then continuous else binary))
       (zero_matrix (rp_n st), []) (pairs (rp_n st))"

text \<open>The three triangle constraints of a triple, each \<open>\<le> 1\<close>.\<close>

definition triangle :: "nat list list \<Rightarrow> nat \<Rightarrow> nat \<Rightarrow> nat \<Rightarrow> int list \<Rightarrow> linear_constraint" where
  "triangle X i j k coefs =
     \<lparr>the_vars = [X ! i ! j, X ! j ! k, X ! i ! k], the_coefs = coefs, senses = ''L'', rhs = 1\<rparr>"

definition C1 :: "nat list list \<Rightarrow> nat \<Rightarrow> nat \<Rightarrow> nat \<Rightarrow> linear_constraint" where
  "C1 X i j k = triangle X i j k [1, 1, -1]"

definition C2 :: "nat list list \<Rightarrow> nat \<Rightarrow> nat \<Rightarrow> nat \<Rightarrow> linear_constraint" where
  "C2 X i j k = triangle X i j k [1, -1, 1]"

definition C3 :: "nat list list \<Rightarrow> nat \<Rightarrow> nat \<Rightarrow> nat \<Rightarrow> linear_constraint" where
  "C3 X i j k = triangle X i j k [-1, 1, 1]"

text \<open>
  The triples in the order of the three nested loops
  \<^verbatim>\<open>for i in range(n): for j in range(i+1,n): for k in range(j+1,n)\<close>.
\<close>

definition triples :: "nat \<Rightarrow> (nat \<times> nat \<times> nat) list" where
  "triples n = [(i, j, k). i \<leftarrow> [0..<n], j \<leftarrow> [i + 1..<n], k \<leftarrow> [j + 1..<n]]"

text \<open>\<^verbatim>\<open>if cond: linear_constraints.add(c)\<close>\<close>

definition add_if :: "bool \<Rightarrow> linear_constraint \<Rightarrow> linear_constraint list" where
  "add_if cond c = (if cond then [c] else [])"

definition RM_constraints :: "nat list list \<Rightarrow> nat \<Rightarrow> linear_constraint list" where
  "RM_constraints X n =
     concat (map (\<lambda>(i, j, k). [C1 X i j k, C2 X i j k, C3 X i j k]) (triples n))"

definition RMalpha_constraints ::
  "int list list \<Rightarrow> nat list list \<Rightarrow> nat \<Rightarrow> int \<Rightarrow> linear_constraint list" where
  "RMalpha_constraints S X n cutv =
     concat (map (\<lambda>(i, j, k).
       add_if (S ! i ! j \<ge> cutv \<or> S ! j ! k \<ge> cutv) (C1 X i j k) @
       add_if (S ! i ! j \<ge> cutv \<or> S ! i ! k \<ge> cutv) (C2 X i j k) @
       add_if (S ! j ! k \<ge> cutv \<or> S ! i ! k \<ge> cutv) (C3 X i j k)) (triples n))"

definition RMbeta_constraints ::
  "int list list \<Rightarrow> nat list list \<Rightarrow> nat \<Rightarrow> int \<Rightarrow> linear_constraint list" where
  "RMbeta_constraints S X n cutv =
     concat (map (\<lambda>(i, j, k).
       add_if (S ! i ! j + S ! j ! k \<ge> cutv) (C1 X i j k) @
       add_if (S ! i ! j + S ! i ! k \<ge> cutv) (C2 X i j k) @
       add_if (S ! j ! k + S ! i ! k \<ge> cutv) (C3 X i j k)) (triples n))"

definition RMgamma_constraints ::
  "int list list \<Rightarrow> nat list list \<Rightarrow> nat \<Rightarrow> int \<Rightarrow> linear_constraint list" where
  "RMgamma_constraints S X n cutv =
     concat (map (\<lambda>(i, j, k).
       add_if (S ! i ! j \<ge> 0 \<and> S ! j ! k \<ge> cutv \<and> S ! i ! k \<le> 0) (C1 X i j k) @
       add_if (S ! i ! j \<ge> 0 \<and> S ! j ! k \<le> 0 \<and> S ! i ! k \<ge> cutv) (C2 X i j k) @
       add_if (S ! i ! j \<le> 0 \<and> S ! j ! k \<ge> cutv \<and> S ! i ! k \<ge> 0) (C3 X i j k)) (triples n))"

subsection \<open>The connectivity cut heuristics\<close>

text \<open>
  The graph is the list of its weighted edges over the vertices \<open>0..<n\<close>.
  \<open>is_connected\<close> stands for the graph library's test of the same name: every vertex
  is reached from vertex 0 (after \<open>n\<close> rounds of adding neighbours). The test is only
  ever run on a graph that has an edge.
\<close>

type_synonym edge = "nat \<times> nat \<times> int"

definition weight :: "edge \<Rightarrow> int" where
  "weight e = snd (snd e)"

definition grow :: "edge list \<Rightarrow> nat list \<Rightarrow> nat list" where
  "grow es vs = vs @ [b. (a, b, w) \<leftarrow> es, a \<in> set vs] @ [a. (a, b, w) \<leftarrow> es, b \<in> set vs]"

definition is_connected :: "nat \<Rightarrow> edge list \<Rightarrow> bool" where
  "is_connected n es = (0 < n \<and> (\<forall>v\<in>set [0..<n]. v \<in> set ((grow es ^^ n) [0])))"

definition positive_edges :: "regnier \<Rightarrow> edge list" where
  "positive_edges st =
     [(i, j, rp_S st ! i ! j). (i, j) \<leftarrow> pairs (rp_n st), rp_S st ! i ! j \<ge> 0]"

definition negative_edges :: "regnier \<Rightarrow> edge list" where
  "negative_edges st =
     [(i, j, rp_S st ! i ! j). (i, j) \<leftarrow> pairs (rp_n st), rp_S st ! i ! j \<le> 0]"

text \<open>\<^verbatim>\<open>sorted(unique_weights)\<close>: the distinct weights in ascending order.\<close>

definition unique_weights :: "edge list \<Rightarrow> int list" where
  "unique_weights es = sort (remdups (map weight es))"

text \<open>\<^verbatim>\<open>delete_edges(es.select(weight_lt=newCut))\<close>\<close>

definition delete_lighter :: "int \<Rightarrow> edge list \<Rightarrow> edge list" where
  "delete_lighter newCut es = filter (\<lambda>e. \<not> weight e < newCut) es"

text \<open>The loop over the candidate cuts; it stops at the first cut that disconnects.\<close>

fun best_cut :: "nat \<Rightarrow> edge list \<Rightarrow> int \<Rightarrow> int list \<Rightarrow> int" where
  "best_cut n es best [] = best"
| "best_cut n es best (newCut # cuts) =
     (let es' = delete_lighter newCut es
      in if is_connected n es' then best_cut n es' newCut cuts else best)"

definition findPositiveCut :: "regnier \<Rightarrow> int" where
  "findPositiveCut st =
     best_cut (rp_n st) (positive_edges st) 0 (unique_weights (positive_edges st))"

definition findNegativeCut :: "regnier \<Rightarrow> int" where
  "findNegativeCut st =
     best_cut (rp_n st) (negative_edges st) 0 (unique_weights (negative_edges st))"

subsection \<open>Decoding the solver's values into groups\<close>

text \<open>\<^verbatim>\<open>x[index]\<close>, where \<open>x\<close> is the list of values the solver returns.\<close>

definition x_at :: "real list \<Rightarrow> nat \<Rightarrow> py_error + real" where
  "x_at x index = (if index < length x then Inr (x ! index) else Inl IndexError)"

text \<open>The body run for a cell whose value is positive; the state is \<open>(groups, groupID)\<close>.\<close>

definition join :: "nat \<Rightarrow> nat \<Rightarrow> int list \<times> int \<Rightarrow> int list \<times> int" where
  "join i j gs =
     (case gs of (groups, groupID) \<Rightarrow>
        if groups ! i = -1 \<and> groups ! j = -1 then
          ((groups[i := groupID])[j := groupID], groupID + 1)
        else if groups ! i = -1 then (groups[i := groups ! j], groupID)
        else (groups[j := groups ! i], groupID))"

definition scan_cell ::
  "nat list list \<Rightarrow> real list \<Rightarrow> int list \<times> int \<Rightarrow> nat \<times> nat \<Rightarrow> py_error + (int list \<times> int)" where
  "scan_cell X x gs ij =
     (case ij of (i, j) \<Rightarrow>
        (case x_at x (X ! i ! j) of
           Inl e \<Rightarrow> Inl e
         | Inr v \<Rightarrow> if v > 0 then Inr (join i j gs) else Inr gs))"

text \<open>The cells in the order of \<^verbatim>\<open>for i in range(n): for j in range(n)\<close>.\<close>

definition cells :: "nat \<Rightarrow> (nat \<times> nat) list" where
  "cells n = [(i, j). i \<leftarrow> [0..<n], j \<leftarrow> [0..<n]]"

text \<open>The objects that remained alone get a group of their own.\<close>

definition alone :: "int list \<times> int \<Rightarrow> nat \<Rightarrow> int list \<times> int" where
  "alone gs i =
     (case gs of (groups, groupID) \<Rightarrow>
        if groups ! i = -1 then (groups[i := groupID], groupID + 1) else (groups, groupID))"

definition create_partition :: "nat \<Rightarrow> nat list list \<Rightarrow> real list \<Rightarrow> py_error + int list" where
  "create_partition n X x =
     (case for_each (scan_cell X x) (cells n) (replicate n (-1), 0) of
        Inl e \<Rightarrow> Inl e
      | Inr (groups, groupID) \<Rightarrow>
          Inr (fst (foldl alone (groups, groupID) [0..<length groups])))"

subsection \<open>The models built and run\<close>

text \<open>
  Each \<^verbatim>\<open>runRM...\<close> builds its model (the variables, then the constraints of its
  variant), has it solved, and decodes the values. The solver is external: \<open>x\<close> is the
  list of values it returns for the model built. Of the solution, the number of
  constraints, the number of variables, the cut used and the groups are kept.
\<close>

definition build_model ::
  "regnier \<Rightarrow> bool \<Rightarrow> (nat list list \<Rightarrow> linear_constraint list) \<Rightarrow> nat list list \<times> cplex" where
  "build_model st lp_problem constraints_of =
     (case create_variables st lp_problem of (X, vars) \<Rightarrow>
        (X, \<lparr>variables = vars, linear_constraints = constraints_of X\<rparr>))"

definition RM_model :: "regnier \<Rightarrow> bool \<Rightarrow> nat list list \<times> cplex" where
  "RM_model st lp_problem = build_model st lp_problem (\<lambda>X. RM_constraints X (rp_n st))"

definition RMalpha_model :: "regnier \<Rightarrow> int \<Rightarrow> bool \<Rightarrow> nat list list \<times> cplex" where
  "RMalpha_model st cutv lp_problem =
     build_model st lp_problem (\<lambda>X. RMalpha_constraints (rp_S st) X (rp_n st) cutv)"

definition RMbeta_model :: "regnier \<Rightarrow> int \<Rightarrow> bool \<Rightarrow> nat list list \<times> cplex" where
  "RMbeta_model st cutv lp_problem =
     build_model st lp_problem (\<lambda>X. RMbeta_constraints (rp_S st) X (rp_n st) cutv)"

definition RMgamma_model :: "regnier \<Rightarrow> bool \<Rightarrow> nat list list \<times> cplex" where
  "RMgamma_model st lp_problem =
     build_model st lp_problem
       (\<lambda>X. RMgamma_constraints (rp_S st) X (rp_n st) (findNegativeCut st))"

record solution =
  num_rows :: nat
  num_cols :: nat
  heuristic :: "int option"
  groups :: "int list"

definition solve_and_decode ::
  "regnier \<Rightarrow> nat list list \<times> cplex \<Rightarrow> int option \<Rightarrow> real list \<Rightarrow> py_error + solution" where
  "solve_and_decode st model h x =
     (case model of (X, my_prob) \<Rightarrow>
        (case create_partition (rp_n st) X x of
           Inl e \<Rightarrow> Inl e
         | Inr gs \<Rightarrow>
             Inr \<lparr>num_rows = length (linear_constraints my_prob),
                  num_cols = length (variables my_prob),
                  heuristic = h, groups = gs\<rparr>))"

definition runRM :: "regnier \<Rightarrow> bool \<Rightarrow> real list \<Rightarrow> py_error + solution" where
  "runRM st lp_problem x = solve_and_decode st (RM_model st lp_problem) None x"

definition runRMalpha :: "regnier \<Rightarrow> int \<Rightarrow> bool \<Rightarrow> real list \<Rightarrow> py_error + solution" where
  "runRMalpha st cutv lp_problem x =
     solve_and_decode st (RMalpha_model st cutv lp_problem) None x"

definition runRMalphaPlus :: "regnier \<Rightarrow> bool \<Rightarrow> real list \<Rightarrow> py_error + solution" where
  "runRMalphaPlus st lp_problem x =
     (case runRMalpha st (findPositiveCut st) lp_problem x of
        Inl e \<Rightarrow> Inl e
      | Inr sol \<Rightarrow> Inr (sol\<lparr>heuristic := Some (findPositiveCut st)\<rparr>))"

definition runRMbeta :: "regnier \<Rightarrow> int \<Rightarrow> bool \<Rightarrow> real list \<Rightarrow> py_error + solution" where
  "runRMbeta st cutv lp_problem x =
     solve_and_decode st (RMbeta_model st cutv lp_problem) None x"

definition runRMbetaPlus :: "regnier \<Rightarrow> bool \<Rightarrow> real list \<Rightarrow> py_error + solution" where
  "runRMbetaPlus st lp_problem x =
     (case runRMbeta st (findPositiveCut st) lp_problem x of
        Inl e \<Rightarrow> Inl e
      | Inr sol \<Rightarrow> Inr (sol\<lparr>heuristic := Some (findPositiveCut st)\<rparr>))"

definition runRMgamma :: "regnier \<Rightarrow> bool \<Rightarrow> real list \<Rightarrow> py_error + solution" where
  "runRMgamma st lp_problem x =
     solve_and_decode st (RMgamma_model st lp_problem) (Some (findNegativeCut st)) x"

section \<open>Specification-side and auxiliary definitions\<close>

subsection \<open>Similarity matrix\<close>

text \<open>
  \<open>matches\<close> counts the attributes where both records have non-missing, equal values,
  \<open>mismatches\<close> those where both are non-missing and differ; \<open>sim\<close> is their
  difference. \<open>readable\<close> says which cells the attribute loop reads are in range.
\<close>

definition both_present :: "string list list \<Rightarrow> nat \<Rightarrow> nat \<Rightarrow> nat \<Rightarrow> bool" where
  "both_present D i j k = (D ! i ! k \<noteq> ''?'' \<and> D ! j ! k \<noteq> ''?'')"

definition matches :: "string list list \<Rightarrow> nat \<Rightarrow> nat \<Rightarrow> nat \<Rightarrow> nat" where
  "matches D m i j = length (filter (\<lambda>k. both_present D i j k \<and> D ! i ! k = D ! j ! k) [0..<m])"

definition mismatches :: "string list list \<Rightarrow> nat \<Rightarrow> nat \<Rightarrow> nat \<Rightarrow> nat" where
  "mismatches D m i j = length (filter (\<lambda>k. both_present D i j k \<and> D ! i ! k \<noteq> D ! j ! k) [0..<m])"

definition readable :: "string list list \<Rightarrow> nat \<Rightarrow> nat \<Rightarrow> nat \<Rightarrow> bool" where
  "readable D i j k =
     (i < length D \<and> k < length (D ! i) \<and>
      (D ! i ! k \<noteq> ''?'' \<longrightarrow> j < length D \<and> k < length (D ! j)))"

definition attribute_count :: "string list list \<Rightarrow> nat \<Rightarrow> nat \<Rightarrow> int \<times> int \<Rightarrow> nat \<Rightarrow> int \<times> int" where
  "attribute_count D i j tm k =
     (if both_present D i j k then
        (if D ! i ! k = D ! j ! k then (fst tm + 1, snd tm) else tm)
      else (fst tm, snd tm + 1))"

definition sim :: "string list list \<Rightarrow> nat \<Rightarrow> nat \<Rightarrow> nat \<Rightarrow> int" where
  "sim D m i j = int (matches D m i j) - int (mismatches D m i j)"

definition column_update :: "string list list \<Rightarrow> nat \<Rightarrow> nat \<Rightarrow> int list list \<Rightarrow> nat \<Rightarrow> int list list" where
  "column_update D m i S j = (if i \<noteq> j then S[i := (S ! i)[j := sim D m i j]] else S)"

definition row_update :: "string list list \<Rightarrow> nat \<Rightarrow> nat \<Rightarrow> int list list \<Rightarrow> nat \<Rightarrow> int list list" where
  "row_update D n m S i = foldl (column_update D m i) S [0..<n]"

definition row_readable :: "string list list \<Rightarrow> nat \<Rightarrow> nat \<Rightarrow> nat \<Rightarrow> bool" where
  "row_readable D n m i = (\<forall>j<n. i \<noteq> j \<longrightarrow> (\<forall>k<m. readable D i j k))"

definition square :: "nat \<Rightarrow> 'a list list \<Rightarrow> bool" where
  "square n S = (length S = n \<and> (\<forall>r\<in>set S. length r = n))"

definition cells_per_row :: "string list list \<Rightarrow> nat" where
  "cells_per_row D = sum_list (map length D) div length D"

definition example_D :: "string list list" where
  "example_D = [[''a'', ''b'', ''?''], [''a'', ''c'', ''d''], [''x'', ''?'', ''d'']]"

definition example_st :: regnier where
  "example_st = \<lparr>rp_S = [[-4, 0, -1], [0, -4, 0], [-1, 0, -4]], rp_n = 3, rp_m = 3\<rparr>"

definition ragged_D :: "string list list" where
  "ragged_D = [[''a'', ''b'', ''c''], [''a'', ''b'']]"

definition ragged_st :: regnier where
  "ragged_st = \<lparr>rp_S = [[-3, 2], [2, -3]], rp_n = 2, rp_m = 2\<rparr>"

text \<open>Example objects for the cut heuristics.\<close>

definition split_D :: "string list list" where
  "split_D = [[''a'', ''a''], [''a'', ''a''], [''b'', ''b'']]"

definition split_st :: regnier where
  "split_st = \<lparr>rp_S = [[-3, 2, -2], [2, -3, -2], [-2, -2, -3]], rp_n = 3, rp_m = 2\<rparr>"

definition same_st :: regnier where
  "same_st = \<lparr>rp_S = [[-2, 1, 1], [1, -2, 1], [1, 1, -2]], rp_n = 3, rp_m = 1\<rparr>"

definition apart_st :: regnier where
  "apart_st = \<lparr>rp_S = [[-2, -1, -1], [-1, -2, -1], [-1, -1, -2]], rp_n = 3, rp_m = 1\<rparr>"

text \<open>Example objects for the decoder.\<close>

definition four_D :: "string list list" where
  "four_D = [[''a'', ''c''], [''b'', ''c''], [''a'', ''d''], [''b'', ''d'']]"

definition four_st :: regnier where
  "four_st = \<lparr>rp_S = [[-3, 0, 0, -2], [0, -3, -2, 0], [0, -2, -3, 0], [-2, 0, 0, -3]],
               rp_n = 4, rp_m = 2\<rparr>"

definition four_X :: "nat list list" where
  "four_X = [[0, 0, 1, 2], [0, 0, 3, 4], [0, 0, 0, 5], [0, 0, 0, 0]]"

definition four_x :: "real list" where
  "four_x = [0, 1/2, 0, 0, 1/2, 1/2]"

definition scenario_D :: "string list list" where
  "scenario_D = [[''a'', ''b''], [''a'', ''b''], [''x'', ''y'']]"

definition scenario_st :: regnier where
  "scenario_st = \<lparr>rp_S = [[-3, 2, -2], [2, -3, -2], [-2, -2, -3]], rp_n = 3, rp_m = 2\<rparr>"

subsection \<open>Models\<close>

text \<open>
  \<open>var_of X (i, j)\<close> is the variable index stored for the pair. \<open>filtered_constraints\<close>
  is the common shape of the four constraint loops, with one rule per constraint.
\<close>

definition var_of :: "nat list list \<Rightarrow> nat \<times> nat \<Rightarrow> nat" where
  "var_of X p = X ! fst p ! snd p"

definition filtered_constraints ::
  "(nat \<Rightarrow> nat \<Rightarrow> nat \<Rightarrow> bool) \<Rightarrow> (nat \<Rightarrow> nat \<Rightarrow> nat \<Rightarrow> bool) \<Rightarrow> (nat \<Rightarrow> nat \<Rightarrow> nat \<Rightarrow> bool)
     \<Rightarrow> nat list list \<Rightarrow> nat \<Rightarrow> linear_constraint list" where
  "filtered_constraints r1 r2 r3 X n =
     concat (map (\<lambda>(i, j, k).
       add_if (r1 i j k) (C1 X i j k) @
       add_if (r2 i j k) (C2 X i j k) @
       add_if (r3 i j k) (C3 X i j k)) (triples n))"

text \<open>The object built from the rows \<open>a b\<close>, \<open>a b\<close>, \<open>x y\<close>.\<close>

definition tri_st :: regnier where
  "tri_st = \<lparr>rp_S = [[-3, 2, -2], [2, -3, -2], [-2, -2, -3]], rp_n = 3, rp_m = 2\<rparr>"

subsection \<open>Decoding\<close>

text \<open>
  \<open>merged\<close>: one group id, 0, has been given out, record 0 has it, and every record has
  it or none. \<open>keeps\<close>: the records in group 0 stay there.
\<close>

definition merged :: "nat \<Rightarrow> int list \<times> int \<Rightarrow> bool" where
  "merged n gs = (snd gs = 1 \<and> length (fst gs) = n \<and> 0 < n \<and> fst gs ! 0 = 0 \<and>
     (\<forall>k<n. fst gs ! k = -1 \<or> fst gs ! k = 0))"

definition keeps :: "int list \<times> int \<Rightarrow> int list \<times> int \<Rightarrow> bool" where
  "keeps gs gs' = (\<forall>k. fst gs ! k = 0 \<longrightarrow> fst gs' ! k = 0)"

section \<open>The similarity matrix\<close>

subsection \<open>The loops in closed form\<close>

lemma for_each_split:
  assumes "\<And>s x. x \<in> set xs \<Longrightarrow> ok x \<Longrightarrow> body s x = Inr (h s x)"
    and "\<And>s x. x \<in> set xs \<Longrightarrow> \<not> ok x \<Longrightarrow> body s x = Inl e"
  shows "for_each body xs s = (if \<forall>x\<in>set xs. ok x then Inr (foldl h s xs) else Inl e)"
  using assms
proof (induction xs arbitrary: s)
  case Nil
  then show ?case by simp
next
  case (Cons x xs)
  have IH: "for_each body xs t = (if \<forall>x\<in>set xs. ok x then Inr (foldl h t xs) else Inl e)" for t
    by (rule Cons.IH) (simp_all add: Cons.prems)
  show ?case
  proof (cases "ok x")
    case True
    then have "body s x = Inr (h s x)" using Cons.prems(1) by simp
    then show ?thesis using True IH by simp
  next
    case False
    then have "body s x = Inl e" using Cons.prems(2) by simp
    then show ?thesis using False by simp
  qed
qed

lemma attribute_step_ok:
  "readable D i j k \<Longrightarrow> attribute_step D i j tm k = Inr (attribute_count D i j tm k)"
  by (cases tm) (auto simp: readable_def attribute_step_def attribute_count_def cell_def both_present_def)

lemma attribute_step_fail:
  "\<not> readable D i j k \<Longrightarrow> attribute_step D i j tm k = Inl IndexError"
  by (cases tm) (auto simp: readable_def attribute_step_def cell_def)

lemma attribute_count_foldl:
  "foldl (attribute_count D i j) (t, u) ks =
     (t + int (length (filter (\<lambda>k. both_present D i j k \<and> D ! i ! k = D ! j ! k) ks)),
      u + int (length (filter (\<lambda>k. \<not> both_present D i j k) ks)))"
  by (induction ks arbitrary: t u) (auto simp: attribute_count_def)

lemma three_way_count:
  "length (filter (\<lambda>k. P k \<and> Q k) ks) + length (filter (\<lambda>k. P k \<and> \<not> Q k) ks)
     + length (filter (\<lambda>k. \<not> P k) ks) = length ks"
  by (induction ks) auto

lemma matches_mismatches_le: "matches D m i j + mismatches D m i j \<le> m"
  using three_way_count[of "both_present D i j" "\<lambda>k. D ! i ! k = D ! j ! k" "[0..<m]"]
  by (simp add: matches_def mismatches_def)

lemma pair_similarity_eq:
  "pair_similarity D m i j =
     (if \<forall>k<m. readable D i j k then Inr (sim D m i j) else Inl IndexError)"
proof -
  have loop: "for_each (attribute_step D i j) [0..<m] (0, 0) =
      (if \<forall>k\<in>set [0..<m]. readable D i j k
       then Inr (foldl (attribute_count D i j) (0, 0) [0..<m]) else Inl IndexError)"
    by (rule for_each_split) (simp_all add: attribute_step_ok attribute_step_fail)
  have cnt: "int m = int (matches D m i j) + int (mismatches D m i j)
      + int (length (filter (\<lambda>k. \<not> both_present D i j k) [0..<m]))"
    using three_way_count[of "both_present D i j" "\<lambda>k. D ! i ! k = D ! j ! k" "[0..<m]"]
    by (simp add: matches_def mismatches_def)
  show ?thesis
    using cnt unfolding pair_similarity_def loop attribute_count_foldl
    by (auto simp: matches_def sim_def)
qed

lemma row_step_eq:
  "row_step D n m S i =
     (if row_readable D n m i then Inr (row_update D n m S i) else Inl IndexError)"
proof -
  have "for_each (column_step D m i) [0..<n] S =
      (if \<forall>j\<in>set [0..<n]. i \<noteq> j \<longrightarrow> (\<forall>k<m. readable D i j k)
       then Inr (foldl (column_update D m i) S [0..<n]) else Inl IndexError)"
    by (rule for_each_split)
      (auto simp: column_step_def column_update_def pair_similarity_eq)
  then show ?thesis by (auto simp: row_step_def row_update_def row_readable_def)
qed

lemma count_rows_eq: "count_rows D = (length D, sum_list (map length D))"
proof -
  have cells: "foldl (\<lambda>m v. Suc m) c row = c + length row" for c :: nat and row :: "string list"
    by (induction row arbitrary: c) auto
  have "foldl (\<lambda>(n, m) row. (n + 1, foldl (\<lambda>m v. m + 1) m row)) (a, b) D
      = (a + length D, b + sum_list (map length D))" for a b
    by (induction D arbitrary: a b) (auto simp: cells)
  then show ?thesis by (simp add: count_rows_def)
qed

lemma init_eq:
  "init D =
     (if D = [] then Inl ZeroDivisionError
      else if \<forall>i<length D. row_readable D (length D) (cells_per_row D) i
      then Inr \<lparr>rp_S = foldl (row_update D (length D) (cells_per_row D))
                    (initial_S (length D) (cells_per_row D)) [0..<length D],
           rp_n = length D, rp_m = cells_per_row D\<rparr>
      else Inl IndexError)"
proof (cases "D = []")
  case True
  then show ?thesis by (simp add: init_def dimensions_def count_rows_eq)
next
  case False
  define n where "n = length D"
  define m where "m = cells_per_row D"
  have dims: "dimensions D = Inr (n, m)"
    using False by (simp add: dimensions_def count_rows_eq n_def m_def cells_per_row_def)
  have loop: "for_each (row_step D n m) [0..<n] (initial_S n m) =
      (if \<forall>i\<in>set [0..<n]. row_readable D n m i
       then Inr (foldl (row_update D n m) (initial_S n m) [0..<n]) else Inl IndexError)"
    by (rule for_each_split) (simp_all add: row_step_eq)
  show ?thesis
    using False by (simp add: init_def dims loop n_def[symmetric] m_def[symmetric])
qed

lemma column_updates_nth:
  assumes "square n S" "i < n" "set js \<subseteq> {..<n}"
  shows "square n (foldl (column_update D m i) S js) \<and>
     (\<forall>a<n. \<forall>b<n. foldl (column_update D m i) S js ! a ! b =
        (if a = i \<and> b \<in> set js \<and> b \<noteq> i then sim D m i b else S ! a ! b))"
  using assms(3)
proof (induction js rule: rev_induct)
  case Nil
  then show ?case using assms(1) by simp
next
  case (snoc j js)
  define T where "T = foldl (column_update D m i) S js"
  have sq: "square n T" and nth: "\<forall>a<n. \<forall>b<n. T ! a ! b =
        (if a = i \<and> b \<in> set js \<and> b \<noteq> i then sim D m i b else S ! a ! b)"
    using snoc by (simp_all add: T_def)
  have j: "j < n" using snoc.prems by simp
  have rows: "\<And>a. a < n \<Longrightarrow> length (T ! a) = n" using sq by (simp add: square_def)
  have len: "length T = n" using sq by (simp add: square_def)
  have "square n (column_update D m i T j)"
    using sq rows[OF assms(2)]
    by (auto simp: square_def column_update_def dest!: set_update_subset_insert[THEN subsetD])
  moreover have "\<forall>a<n. \<forall>b<n. column_update D m i T j ! a ! b =
        (if a = i \<and> b \<in> set (js @ [j]) \<and> b \<noteq> i then sim D m i b else S ! a ! b)"
    using nth rows len assms(2) j by (auto simp: column_update_def nth_list_update)
  ultimately show ?case by (simp add: T_def)
qed

lemma row_update_nth:
  assumes "square n S" "i < n"
  shows "square n (row_update D n m S i) \<and>
     (\<forall>a<n. \<forall>b<n. row_update D n m S i ! a ! b = (if a = i \<and> b \<noteq> i then sim D m i b else S ! a ! b))"
proof -
  have "set [0..<n] \<subseteq> {..<n}" by auto
  from column_updates_nth[OF assms this, of D m] show ?thesis
    by (simp add: row_update_def)
qed

lemma row_updates_nth:
  assumes "square n S" "set is \<subseteq> {..<n}"
  shows "square n (foldl (row_update D n m) S is) \<and>
     (\<forall>a<n. \<forall>b<n. foldl (row_update D n m) S is ! a ! b =
        (if a \<in> set is \<and> b \<noteq> a then sim D m a b else S ! a ! b))"
  using assms(2)
proof (induction "is" rule: rev_induct)
  case Nil
  then show ?case using assms(1) by simp
next
  case (snoc i "is")
  define T where "T = foldl (row_update D n m) S is"
  have sq: "square n T" and nth: "\<forall>a<n. \<forall>b<n. T ! a ! b =
        (if a \<in> set is \<and> b \<noteq> a then sim D m a b else S ! a ! b)"
    using snoc by (simp_all add: T_def)
  have i: "i < n" using snoc.prems by simp
  show ?case using row_update_nth[OF sq i, of D m] nth by (auto simp: T_def[symmetric])
qed

lemma initial_S_square: "square n (initial_S n m)"
  by (simp add: square_def initial_S_def)

lemma init_entries:
  assumes "init D = Inr st"
  shows "rp_n st = length D \<and> rp_m st = cells_per_row D \<and> square (rp_n st) (rp_S st) \<and>
     (\<forall>a<rp_n st. \<forall>b<rp_n st. rp_S st ! a ! b =
        (if a \<noteq> b then sim D (rp_m st) a b else - int (rp_m st) - 1))"
proof -
  define n where "n = length D"
  define m where "m = cells_per_row D"
  have st: "st = \<lparr>rp_S = foldl (row_update D n m) (initial_S n m) [0..<n], rp_n = n, rp_m = m\<rparr>"
    using assms by (auto simp: init_eq n_def m_def split: if_splits)
  have "square n (foldl (row_update D n m) (initial_S n m) [0..<n]) \<and>
     (\<forall>a<n. \<forall>b<n. foldl (row_update D n m) (initial_S n m) [0..<n] ! a ! b =
        (if a \<in> set [0..<n] \<and> b \<noteq> a then sim D m a b else initial_S n m ! a ! b))"
    by (rule row_updates_nth) (auto simp: initial_S_square)
  then show ?thesis by (auto simp: st initial_S_def n_def m_def)
qed

lemma sim_sym: "sim D m i j = sim D m j i"
proof -
  have "matches D m i j = matches D m j i"
    unfolding matches_def by (rule arg_cong[where f = length], rule filter_cong) (auto simp: both_present_def)
  moreover have "mismatches D m i j = mismatches D m j i"
    unfolding mismatches_def by (rule arg_cong[where f = length], rule filter_cong) (auto simp: both_present_def)
  ultimately show ?thesis by (simp add: sim_def)
qed

lemma all_rows_readable_iff:
  assumes "D \<noteq> []"
  shows "(\<forall>i<length D. row_readable D (length D) m i) \<longleftrightarrow>
     (2 \<le> length D \<longrightarrow> (\<forall>r\<in>set D. m \<le> length r))"
proof
  assume R: "\<forall>i<length D. row_readable D (length D) m i"
  show "2 \<le> length D \<longrightarrow> (\<forall>r\<in>set D. m \<le> length r)"
  proof (intro impI ballI)
    fix r assume two: "2 \<le> length D" and "r \<in> set D"
    then obtain i where i: "i < length D" "r = D ! i" by (auto simp: in_set_conv_nth)
    define j where "j = (if i = 0 then 1 else (0::nat))"
    have "j < length D" "i \<noteq> j" using two by (auto simp: j_def)
    then have "\<forall>k<m. readable D i j k" using R i(1) by (auto simp: row_readable_def)
    then have "\<forall>k<m. k < length r" by (simp add: readable_def i(2))
    then show "m \<le> length r" by (meson not_le_imp_less order_refl leD)
  qed
next
  assume L: "2 \<le> length D \<longrightarrow> (\<forall>r\<in>set D. m \<le> length r)"
  show "\<forall>i<length D. row_readable D (length D) m i"
  proof (cases "2 \<le> length D")
    case True
    then have "\<And>i k. i < length D \<Longrightarrow> k < m \<Longrightarrow> k < length (D ! i)"
      using L by (meson nth_mem less_le_trans)
    then show ?thesis by (auto simp: row_readable_def readable_def)
  next
    case False
    moreover have "length D \<noteq> 0" using assms by simp
    ultimately have "length D = 1" by linarith
    then show ?thesis by (auto simp: row_readable_def)
  qed
qed

text \<open>A dataset whose rows all have \<open>c\<close> cells is accepted, with \<open>m = c\<close>.\<close>

lemma sum_rows_rectangular:
  "\<forall>r\<in>set D. length r = c \<Longrightarrow> sum_list (map length D) = length D * c"
  by (induction D) auto

lemma init_rectangular:
  assumes "D \<noteq> []" and "\<forall>r\<in>set D. length r = c"
  shows "\<exists>st. init D = Inr st \<and> rp_n st = length D \<and> rp_m st = c"
proof -
  have "sum_list (map length D) = length D * c"
    by (rule sum_rows_rectangular[OF assms(2)])
  then have m: "cells_per_row D = c"
    using assms(1) by (simp add: cells_per_row_def)
  have "\<forall>i<length D. row_readable D (length D) c i"
    using all_rows_readable_iff[OF assms(1), of c] assms(2) by simp
  then show ?thesis using assms(1) by (simp add: init_eq m)
qed

lemma init_example: "init example_D = Inr example_st"
  by code_simp

lemma init_ragged: "init ragged_D = Inr ragged_st"
  by code_simp

subsection \<open>Entries of the similarity matrix\<close>

text \<open>
  C3. Whenever the constructor builds a similarity matrix from the rows \<open>D\<close>, the entry
  for two distinct records \<open>i\<close>, \<open>j\<close> is the number of attributes where both values are
  non-missing and equal minus the number where both are non-missing and differ; an
  attribute with \<open>?\<close> in either record counts in neither.
\<close>

theorem similarity_entry:
  assumes "init D = Inr st" and "i < rp_n st" and "j < rp_n st" and "i \<noteq> j"
  shows "rp_S st ! i ! j = int (matches D (rp_m st) i j) - int (mismatches D (rp_m st) i j)"
  using init_entries[OF assms(1)] assms(2-4) by (simp add: sim_def)

theorem similarity_entry_witness:
  "init example_D = Inr example_st \<and> 0 < rp_n example_st \<and> 1 < rp_n example_st \<and> (0::nat) \<noteq> 1 \<and>
   rp_S example_st ! 0 ! 1 = int (matches example_D (rp_m example_st) 0 1)
       - int (mismatches example_D (rp_m example_st) 0 1)"
proof -
  have a: "init example_D = Inr example_st" by (rule init_example)
  have b: "0 < rp_n example_st" "1 < rp_n example_st" by (simp_all add: example_st_def)
  show ?thesis using a b similarity_entry[OF a b(1) b(2)] by simp
qed

text \<open>
  C9. The similarity matrix the constructor builds is symmetric off the diagonal:
  \<open>S[i][j] = S[j][i]\<close> for all distinct records \<open>i\<close>, \<open>j\<close>.
\<close>

theorem similarity_symmetric:
  assumes "init D = Inr st" and "i < rp_n st" and "j < rp_n st" and "i \<noteq> j"
  shows "rp_S st ! i ! j = rp_S st ! j ! i"
  using init_entries[OF assms(1)] assms(2-4) sim_sym[of D "rp_m st" i j] by simp

theorem similarity_symmetric_witness:
  "init example_D = Inr example_st \<and> 0 < rp_n example_st \<and> 2 < rp_n example_st \<and> (0::nat) \<noteq> 2 \<and>
   rp_S example_st ! 0 ! 2 = rp_S example_st ! 2 ! 0"
proof -
  have a: "init example_D = Inr example_st" by (rule init_example)
  have b: "0 < rp_n example_st" "2 < rp_n example_st" by (simp_all add: example_st_def)
  show ?thesis using a b similarity_symmetric[OF a b(1) b(2)] by simp
qed

text \<open>
  C10. In the similarity matrix built for a dataset with \<open>m\<close> attributes, every entry off
  the diagonal lies between \<open>-m\<close> and \<open>m\<close>, and every entry on the diagonal is the
  sentinel \<open>-m-1\<close>.
\<close>

theorem similarity_range:
  assumes "init D = Inr st"
  shows "(\<forall>i<rp_n st. \<forall>j<rp_n st. i \<noteq> j \<longrightarrow>
            - int (rp_m st) \<le> rp_S st ! i ! j \<and> rp_S st ! i ! j \<le> int (rp_m st)) \<and>
         (\<forall>i<rp_n st. rp_S st ! i ! i = - int (rp_m st) - 1)"
proof -
  have "- int m \<le> sim D m i j \<and> sim D m i j \<le> int m" for m i j
    using matches_mismatches_le[of D m i j] by (simp add: sim_def)
  then show ?thesis using init_entries[OF assms] by simp
qed

theorem similarity_range_witness:
  "init example_D = Inr example_st \<and>
   - int (rp_m example_st) \<le> rp_S example_st ! 0 ! 2 \<and>
   rp_S example_st ! 0 ! 2 \<le> int (rp_m example_st) \<and>
   rp_S example_st ! 1 ! 1 = - int (rp_m example_st) - 1"
proof -
  have a: "init example_D = Inr example_st" by (rule init_example)
  have b: "0 < rp_n example_st" "1 < rp_n example_st" "2 < rp_n example_st"
    by (simp_all add: example_st_def)
  show ?thesis using a b similarity_range[OF a] by auto
qed

subsection \<open>Ragged rows\<close>

text \<open>
  C8, as the claim states it, fails: the rows \<open>a b c\<close> and \<open>a b\<close> have different
  column counts, and the constructor returns an object for them, with \<open>m = 5 div 2 = 2\<close>.
\<close>

theorem ragged_rows_accepted:
  "init [[''a'', ''b'', ''c''], [''a'', ''b'']] = Inr \<lparr>rp_S = [[-3, 2], [2, -3]], rp_n = 2, rp_m = 2\<rparr>"
  using init_ragged by (simp add: ragged_D_def ragged_st_def)

text \<open>
  C8, amended. The constructor makes no check of the column counts. It takes \<open>n\<close> as the
  number of rows and \<open>m\<close> as the total number of cells divided by \<open>n\<close>, rounded down. It
  raises ZeroDivisionError exactly for the empty dataset, and IndexError exactly when
  there are at least two rows and some row has fewer than \<open>m\<close> cells; in every other
  case, ragged or not, it returns an object.
\<close>

theorem load_outcome:
  "(init D = Inl ZeroDivisionError \<longleftrightarrow> D = []) \<and>
   (init D = Inl IndexError \<longleftrightarrow> 2 \<le> length D \<and> (\<exists>r\<in>set D. length r < cells_per_row D)) \<and>
   ((\<exists>st. init D = Inr st) \<longleftrightarrow>
      D \<noteq> [] \<and> (2 \<le> length D \<longrightarrow> (\<forall>r\<in>set D. cells_per_row D \<le> length r))) \<and>
   (\<forall>st. init D = Inr st \<longrightarrow> rp_n st = length D \<and> rp_m st = cells_per_row D)"
proof (cases "D = []")
  case True
  then show ?thesis by (simp add: init_eq)
next
  case False
  show ?thesis
    using False all_rows_readable_iff[OF False, of "cells_per_row D"]
    unfolding init_eq by (auto simp: not_le)
qed

theorem load_outcome_witness:
  "init ragged_D = Inr ragged_st \<and> ragged_D \<noteq> [] \<and> 2 \<le> length ragged_D \<and>
   cells_per_row ragged_D \<le> length (ragged_D ! 0) \<and>
   cells_per_row ragged_D \<le> length (ragged_D ! 1) \<and>
   length (ragged_D ! 0) \<noteq> length (ragged_D ! 1) \<and>
   rp_n ragged_st = length ragged_D \<and> rp_m ragged_st = cells_per_row ragged_D"
proof -
  have a: "init ragged_D = Inr ragged_st" by (rule init_ragged)
  have b: "ragged_D \<noteq> []" "2 \<le> length ragged_D" by (simp_all add: ragged_D_def)
  have c: "ragged_D ! 0 \<in> set ragged_D" "ragged_D ! 1 \<in> set ragged_D"
    "length (ragged_D ! 0) \<noteq> length (ragged_D ! 1)"
    by (simp_all add: ragged_D_def)
  show ?thesis using a b c load_outcome[of ragged_D] by blast
qed

section \<open>The connectivity cut heuristics\<close>

lemma init_split: "init split_D = Inr split_st"
  by code_simp

lemma init_same: "init [[''a''], [''a''], [''a'']] = Inr same_st"
  by code_simp

lemma init_apart: "init [[''a''], [''b''], [''c'']] = Inr apart_st"
  by code_simp

lemma best_cut_cases: "best_cut n es best cuts = best \<or> best_cut n es best cuts \<in> set cuts"
  by (induction cuts arbitrary: es best) (auto simp: Let_def)

lemma best_cut_first:
  "best_cut n es best (c # cuts) =
     (if is_connected n (delete_lighter c es) then best_cut n (delete_lighter c es) c cuts else best)"
  by (simp add: Let_def)

lemma best_cut_connected:
  assumes "is_connected n (delete_lighter c es)"
  shows "best_cut n es best (c # cuts) \<in> set (c # cuts)"
  using assms best_cut_cases[where n = n and es = "delete_lighter c es" and best = c and cuts = cuts]
  by (auto simp: Let_def)

lemma set_unique_weights: "set (unique_weights es) = weight ` set es"
  by (simp add: unique_weights_def)

lemma unique_weights_Nil: "unique_weights es = [] \<longleftrightarrow> es = []"
  using set_unique_weights[of es] by (metis image_is_empty set_empty)

lemma delete_lighter_first:
  assumes "unique_weights es = c # cuts"
  shows "delete_lighter c es = es"
proof -
  have "sorted (c # cuts)" using assms by (metis sorted_sort unique_weights_def)
  then have "\<forall>w\<in>set (c # cuts). c \<le> w" by auto
  then have "\<forall>e\<in>set es. c \<le> weight e" using set_unique_weights[of es] assms by auto
  then show ?thesis by (simp add: delete_lighter_def filter_id_conv not_less)
qed

lemma heuristic_cut:
  "(es = [] \<or> \<not> is_connected n es \<longrightarrow> best_cut n es 0 (unique_weights es) = 0) \<and>
   (es \<noteq> [] \<and> is_connected n es \<longrightarrow> best_cut n es 0 (unique_weights es) \<in> weight ` set es)"
proof (cases "unique_weights es")
  case Nil
  then have "es = []" by (simp add: unique_weights_Nil)
  then show ?thesis by (simp add: unique_weights_def)
next
  case (Cons c cuts)
  then have ne: "es \<noteq> []" using unique_weights_Nil[of es] by auto
  have same: "delete_lighter c es = es" by (rule delete_lighter_first[OF Cons])
  show ?thesis
  proof (cases "is_connected n es")
    case True
    then have "is_connected n (delete_lighter c es)" by (simp add: same)
    then have "best_cut n es 0 (c # cuts) \<in> set (c # cuts)"
      by (rule best_cut_connected)
    moreover have "set (c # cuts) = weight ` set es"
      using set_unique_weights[of es] unfolding Cons .
    ultimately have "best_cut n es 0 (unique_weights es) \<in> weight ` set es"
      unfolding Cons by blast
    then show ?thesis using True ne by simp
  next
    case False
    then have "best_cut n es 0 (c # cuts) = 0" by (simp add: same)
    then show ?thesis using False by (simp add: Cons)
  qed
qed

lemma positive_weights: "e \<in> set (positive_edges st) \<Longrightarrow> 0 \<le> weight e"
  by (auto simp: positive_edges_def weight_def)

text \<open>
  C4, as the claim states it, fails. For the rows \<open>a a\<close>, \<open>a a\<close>, \<open>b b\<close> the
  positive heuristic observes one edge, of weight 2; the graph is not connected at the
  first candidate, and the cut returned is the initial 0, which is not an observed weight
  although the edge set is not empty.
\<close>

theorem first_cut_disconnects:
  "init split_D = Inr split_st \<and> positive_edges split_st = [(0, 1, 2)] \<and>
   findPositiveCut split_st = 0 \<and> 0 \<notin> weight ` set (positive_edges split_st)"
proof -
  have "positive_edges split_st = [(0, 1, 2)]" by code_simp
  moreover have "findPositiveCut split_st = 0" by code_simp
  ultimately show ?thesis using init_split by (simp add: weight_def)
qed

text \<open>
  C4, amended. The cut of the positive heuristic is never negative. Each heuristic returns
  0 when its edge set is empty or its graph is not connected before any edge is removed;
  otherwise it returns one of the edge weights it observed.
\<close>

theorem cut_heuristics:
  "0 \<le> findPositiveCut st \<and>
   (positive_edges st = [] \<or> \<not> is_connected (rp_n st) (positive_edges st)
      \<longrightarrow> findPositiveCut st = 0) \<and>
   (positive_edges st \<noteq> [] \<and> is_connected (rp_n st) (positive_edges st)
      \<longrightarrow> findPositiveCut st \<in> weight ` set (positive_edges st)) \<and>
   (negative_edges st = [] \<or> \<not> is_connected (rp_n st) (negative_edges st)
      \<longrightarrow> findNegativeCut st = 0) \<and>
   (negative_edges st \<noteq> [] \<and> is_connected (rp_n st) (negative_edges st)
      \<longrightarrow> findNegativeCut st \<in> weight ` set (negative_edges st))"
proof -
  have p: "findPositiveCut st = 0 \<or> findPositiveCut st \<in> weight ` set (positive_edges st)"
    using best_cut_cases[where n = "rp_n st" and es = "positive_edges st" and best = 0
        and cuts = "unique_weights (positive_edges st)"]
    by (simp add: findPositiveCut_def set_unique_weights)
  have "0 \<le> findPositiveCut st" using p positive_weights[of _ st] by auto
  then show ?thesis
    using heuristic_cut[where n = "rp_n st" and es = "positive_edges st"]
      heuristic_cut[where n = "rp_n st" and es = "negative_edges st"]
    unfolding findPositiveCut_def findNegativeCut_def by metis
qed

theorem cut_heuristics_witness:
  "positive_edges same_st \<noteq> [] \<and> is_connected (rp_n same_st) (positive_edges same_st) \<and>
   findPositiveCut same_st \<in> weight ` set (positive_edges same_st) \<and>
   findPositiveCut same_st = 1 \<and>
   negative_edges apart_st \<noteq> [] \<and> is_connected (rp_n apart_st) (negative_edges apart_st) \<and>
   findNegativeCut apart_st \<in> weight ` set (negative_edges apart_st) \<and>
   findNegativeCut apart_st = -1 \<and>
   negative_edges same_st = [] \<and> findNegativeCut same_st = 0 \<and>
   \<not> is_connected (rp_n split_st) (positive_edges split_st) \<and> findPositiveCut split_st = 0"
proof -
  have a: "positive_edges same_st \<noteq> []" "is_connected (rp_n same_st) (positive_edges same_st)"
    "findPositiveCut same_st = 1" by code_simp+
  have b: "negative_edges apart_st \<noteq> []" "is_connected (rp_n apart_st) (negative_edges apart_st)"
    "findNegativeCut apart_st = -1" by code_simp+
  have c: "negative_edges same_st = []" "\<not> is_connected (rp_n split_st) (positive_edges split_st)"
    by code_simp+
  show ?thesis
    using a b c cut_heuristics[of same_st] cut_heuristics[of apart_st] cut_heuristics[of split_st]
    by simp
qed

section \<open>Decoding\<close>

lemma init_four: "init four_D = Inr four_st"
  by code_simp

lemma four_X_eq: "fst (create_variables four_st True) = four_X"
  by code_simp

lemma init_scenario: "init scenario_D = Inr scenario_st"
  by code_simp

text \<open>
  C1, as the claim states it, fails. With four records and the values
  \<open>x02 = x13 = x23 = 1/2\<close> (the others 0, a point the relaxed model allows), the scan
  reaches the cell \<open>(2, 3)\<close> with the groups \<open>[0, 1, 0, 1]\<close>: both records have a group,
  the value is positive, and the step moves record 3 from group 1 to group 0.
\<close>

theorem assigned_pair_overwritten:
  "init four_D = Inr four_st \<and> fst (create_variables four_st True) = four_X \<and>
   cells 4 ! 11 = (2, 3) \<and>
   for_each (scan_cell four_X four_x) (take 11 (cells 4)) (replicate 4 (-1), 0)
     = Inr ([0, 1, 0, 1], 2) \<and>
   x_at four_x (four_X ! 2 ! 3) = Inr (1/2) \<and>
   scan_cell four_X four_x ([0, 1, 0, 1], 2) (2, 3) = Inr ([0, 1, 0, 0], 2) \<and>
   create_partition 4 four_X four_x = Inr [0, 1, 0, 0]"
proof -
  have "cells 4 ! 11 = (2, 3)" by code_simp
  moreover have "for_each (scan_cell four_X four_x) (take 11 (cells 4)) (replicate 4 (-1), 0)
     = Inr ([0, 1, 0, 1], 2)" by code_simp
  moreover have "x_at four_x (four_X ! 2 ! 3) = Inr (1/2)" by code_simp
  moreover have "scan_cell four_X four_x ([0, 1, 0, 1], 2) (2, 3) = Inr ([0, 1, 0, 0], 2)"
    by code_simp
  moreover have "create_partition 4 four_X four_x = Inr [0, 1, 0, 0]" by code_simp
  ultimately show ?thesis using init_four four_X_eq by simp
qed

text \<open>
  C1, amended. When the value is positive and both records already have a group id,
  the step gives record \<open>j\<close> the group id of record \<open>i\<close> and creates no new group id;
  the groups are unchanged exactly when the two records already had the same group id.
\<close>

theorem join_assigned:
  assumes "i < length gr" and "j < length gr" and "gr ! i \<noteq> -1" and "gr ! j \<noteq> -1"
  shows "join i j (gr, gid) = (gr[j := gr ! i], gid) \<and>
         (join i j (gr, gid) = (gr, gid) \<longleftrightarrow> gr ! i = gr ! j)"
proof -
  have "gr[j := gr ! i] = gr \<longleftrightarrow> gr ! i = gr ! j"
    using assms(2) by (metis list_update_id nth_list_update_eq)
  then show ?thesis using assms(3,4) by (simp add: join_def)
qed

theorem join_assigned_witness:
  "(2::nat) < length [0, 1, 0, 1 :: int] \<and> (3::nat) < length [0, 1, 0, 1 :: int] \<and>
   [0, 1, 0, 1 :: int] ! 2 \<noteq> -1 \<and> [0, 1, 0, 1 :: int] ! 3 \<noteq> -1 \<and>
   join 2 3 ([0, 1, 0, 1], 2) = ([0, 1, 0, 0], 2) \<and>
   join 2 3 ([0, 1, 0, 1], 2) \<noteq> ([0, 1, 0, 1], 2)"
  using join_assigned[of 2 "[0, 1, 0, 1]" 3 2] by simp

text \<open>
  C2: the decoder does read the cells with \<open>i \<ge> j\<close>. For the rows \<open>a b\<close>, \<open>a b\<close>,
  \<open>x y\<close> and the solver's values \<open>x01 = 1\<close>, \<open>x02 = x12 = 0\<close>, every cell with
  \<open>i \<ge> j\<close> holds 0, the index of \<open>x01\<close>, and the scan puts all three records in group 0.
  With the same entries at \<open>i < j\<close> and the other cells pointing at a variable of value 0,
  record 2 is alone.
\<close>

theorem lower_cells_decide_groups:
  "init scenario_D = Inr scenario_st \<and>
   fst (create_variables scenario_st False) = [[0, 0, 1], [0, 0, 2], [0, 0, 0]] \<and>
   runRM scenario_st False [1, 0, 0]
     = Inr \<lparr>num_rows = 3, num_cols = 3, heuristic = None, groups = [0, 0, 0]\<rparr> \<and>
   create_partition 3 [[0, 0, 1], [0, 0, 2], [0, 0, 0]] [1, 0, 0] = Inr [0, 0, 0] \<and>
   create_partition 3 [[1, 0, 1], [1, 1, 2], [1, 1, 1]] [1, 0, 0] = Inr [0, 0, 1]"
proof -
  have "fst (create_variables scenario_st False) = [[0, 0, 1], [0, 0, 2], [0, 0, 0]]"
    by code_simp
  moreover have "runRM scenario_st False [1, 0, 0]
     = Inr \<lparr>num_rows = 3, num_cols = 3, heuristic = None, groups = [0, 0, 0]\<rparr>"
    by code_simp
  moreover have "create_partition 3 [[0, 0, 1], [0, 0, 2], [0, 0, 0]] [1, 0, 0] = Inr [0, 0, 0]"
    by code_simp
  moreover have "create_partition 3 [[1, 0, 1], [1, 1, 2], [1, 1, 1]] [1, 0, 0] = Inr [0, 0, 1]"
    by code_simp
  ultimately show ?thesis using init_scenario by simp
qed

section \<open>The models: variables and constraints\<close>

subsection \<open>Pairs and triples\<close>

lemma set_pairs: "set (pairs n) = {(i, j). i < j \<and> j < n}"
proof -
  have "\<exists>x\<in>{0..<n}. (a, b) \<in> Pair x ` {Suc x..<n}" if "a < b" "b < n" for a b
    using that by (intro bexI[of _ a]) auto
  then show ?thesis by (auto simp: pairs_def)
qed

lemma set_triples: "set (triples n) = {(i, j, k). i < j \<and> j < k \<and> k < n}"
proof -
  have "\<exists>x\<in>{0..<n}. \<exists>y\<in>{Suc x..<n}. (a, b, c) \<in> (\<lambda>z. (x, y, z)) ` {Suc y..<n}"
    if "a < b" "b < c" "c < n" for a b c
    using that by (intro bexI[of _ a] bexI[of _ b]) auto
  then show ?thesis by (auto simp: triples_def)
qed

lemma distinct_concat_map:
  assumes "distinct xs"
    and "\<And>x. x \<in> set xs \<Longrightarrow> distinct (f x)"
    and "\<And>x y. x \<in> set xs \<Longrightarrow> y \<in> set xs \<Longrightarrow> x \<noteq> y \<Longrightarrow> set (f x) \<inter> set (f y) = {}"
  shows "distinct (concat (map f xs))"
  using assms
proof (induction xs)
  case Nil
  then show ?case by simp
next
  case (Cons x xs)
  have "distinct (concat (map f xs))" by (rule Cons.IH) (use Cons.prems in auto)
  moreover have "distinct (f x)" using Cons.prems(2) by simp
  moreover have "set (f x) \<inter> set (f y) = {}" if "y \<in> set xs" for y
    using Cons.prems(3)[of x y] Cons.prems(1) that by auto
  ultimately show ?case by auto
qed

lemma distinct_pairs: "distinct (pairs n)"
proof -
  have "pairs n = concat (map (\<lambda>i. map (\<lambda>j. (i, j)) [i + 1..<n]) [0..<n])"
    by (simp add: pairs_def)
  moreover have "distinct (concat (map (\<lambda>i. map (\<lambda>j. (i, j)) [i + 1..<n]) [0..<n]))"
    by (rule distinct_concat_map) (auto simp: distinct_map inj_on_def)
  ultimately show ?thesis by simp
qed


lemma sum_gap: "a + d = n \<Longrightarrow> (\<Sum>j = a..<n. n - Suc j) = d choose 2"
proof (induction d arbitrary: a)
  case 0
  then show ?case by simp
next
  case (Suc d)
  then have "a < n" and "Suc a + d = n" by auto
  then have "(\<Sum>j = a..<n. n - Suc j) = (n - Suc a) + (\<Sum>j = Suc a..<n. n - Suc j)"
    by (simp add: sum.atLeast_Suc_lessThan)
  also have "\<dots> = d + (d choose 2)" using Suc.IH[OF \<open>Suc a + d = n\<close>] \<open>Suc a + d = n\<close> by simp
  also have "\<dots> = Suc d choose 2" by (simp add: numeral_2_eq_2)
  finally show ?case .
qed

lemma sum_gap2: "a + d = n \<Longrightarrow> (\<Sum>i = a..<n. (n - Suc i) choose 2) = d choose 3"
proof (induction d arbitrary: a)
  case 0
  then show ?case by simp
next
  case (Suc d)
  then have "a < n" and "Suc a + d = n" by auto
  then have "(\<Sum>i = a..<n. (n - Suc i) choose 2) = ((n - Suc a) choose 2) + (\<Sum>i = Suc a..<n. (n - Suc i) choose 2)"
    by (simp add: sum.atLeast_Suc_lessThan)
  also have "\<dots> = (d choose 2) + (d choose 3)"
    using Suc.IH[OF \<open>Suc a + d = n\<close>] \<open>Suc a + d = n\<close> by auto
  also have "\<dots> = Suc d choose 3" by (simp add: numeral_3_eq_3 numeral_2_eq_2)
  finally show ?case .
qed

lemma length_triples: "length (triples n) = n choose 3"
proof -
  have "length (triples n) = (\<Sum>i = 0..<n. \<Sum>j = Suc i..<n. n - Suc j)"
    by (simp add: triples_def length_concat comp_def interv_sum_list_conv_sum_set_nat)
  also have "\<dots> = (\<Sum>i = 0..<n. (n - Suc i) choose 2)"
  proof (rule sum.cong)
    fix i assume "i \<in> {0..<n}"
    then have "Suc i + (n - Suc i) = n" by simp
    then show "(\<Sum>j = Suc i..<n. n - Suc j) = (n - Suc i) choose 2" by (rule sum_gap)
  qed simp
  also have "\<dots> = n choose 3" by (rule sum_gap2) simp
  finally show ?thesis .
qed

subsection \<open>The variable index of a pair\<close>

lemma add_variable_step:
  assumes "square n X" "i < n" "j < n"
  shows "square n (fst (add_variable S ty (X, vars) (i, j)))"
    and "length (snd (add_variable S ty (X, vars) (i, j))) = Suc (length vars)"
    and "var_of (fst (add_variable S ty (X, vars) (i, j))) (i, j) = length vars"
    and "q \<noteq> (i, j) \<Longrightarrow> var_of (fst (add_variable S ty (X, vars) (i, j))) q = var_of X q"
proof -
  have len: "length X = n" and row: "length (X ! i) = n"
    using assms(1,2) by (auto simp: square_def)
  show "square n (fst (add_variable S ty (X, vars) (i, j)))"
    using assms(1) row
    by (auto simp: square_def add_variable_def dest!: set_update_subset_insert[THEN subsetD])
  show "length (snd (add_variable S ty (X, vars) (i, j))) = Suc (length vars)"
    by (simp add: add_variable_def)
  show "var_of (fst (add_variable S ty (X, vars) (i, j))) (i, j) = length vars"
    using len row assms(2,3) by (simp add: add_variable_def var_of_def)
  show "var_of (fst (add_variable S ty (X, vars) (i, j))) q = var_of X q" if "q \<noteq> (i, j)"
    using that len assms(2)
    by (cases q) (auto simp: add_variable_def var_of_def nth_list_update)
qed

lemma add_variables:
  assumes "square n X" "distinct ps" "set ps \<subseteq> {..<n} \<times> {..<n}"
  shows "square n (fst (foldl (add_variable S ty) (X, vars) ps)) \<and>
         length (snd (foldl (add_variable S ty) (X, vars) ps)) = length vars + length ps \<and>
         (\<forall>q. q \<notin> set ps \<longrightarrow> var_of (fst (foldl (add_variable S ty) (X, vars) ps)) q = var_of X q) \<and>
         (\<forall>q\<in>set ps. length vars \<le> var_of (fst (foldl (add_variable S ty) (X, vars) ps)) q) \<and>
         inj_on (var_of (fst (foldl (add_variable S ty) (X, vars) ps))) (set ps)"
  using assms
proof (induction ps arbitrary: X vars)
  case Nil
  then show ?case by simp
next
  case (Cons p ps)
  obtain i j where p: "p = (i, j)" by (cases p)
  have ij: "i < n" "j < n" using Cons.prems(3) by (auto simp: p)
  define X1 where "X1 = fst (add_variable S ty (X, vars) (i, j))"
  define vars1 where "vars1 = snd (add_variable S ty (X, vars) (i, j))"
  define R where "R = foldl (add_variable S ty) (X1, vars1) ps"
  have R: "foldl (add_variable S ty) (X, vars) (p # ps) = R"
    by (simp add: R_def X1_def vars1_def p)
  have sq1: "square n X1" and len1: "length vars1 = Suc (length vars)"
    and at: "var_of X1 (i, j) = length vars"
    and other: "\<And>q. q \<noteq> (i, j) \<Longrightarrow> var_of X1 q = var_of X q"
    using add_variable_step[OF Cons.prems(1) ij, where S = S and ty = ty and vars = vars] by (simp_all add: X1_def vars1_def)
  have IH: "square n (fst R) \<and> length (snd R) = length vars1 + length ps \<and>
         (\<forall>q. q \<notin> set ps \<longrightarrow> var_of (fst R) q = var_of X1 q) \<and>
         (\<forall>q\<in>set ps. length vars1 \<le> var_of (fst R) q) \<and>
         inj_on (var_of (fst R)) (set ps)"
    unfolding R_def by (rule Cons.IH) (use sq1 Cons.prems in auto)
  have notin: "p \<notin> set ps" using Cons.prems(2) by simp
  then have atR: "var_of (fst R) p = length vars" using IH at by (simp add: p)
  have "inj_on (var_of (fst R)) (set (p # ps))"
    using IH atR len1 by (auto simp: image_iff)
  moreover have "\<forall>q. q \<notin> set (p # ps) \<longrightarrow> var_of (fst R) q = var_of X q"
    using IH other by (auto simp: p)
  moreover have "\<forall>q\<in>set (p # ps). length vars \<le> var_of (fst R) q"
    using IH atR len1 by auto
  ultimately show ?case unfolding R using IH len1 by simp
qed

lemma create_variables_index:
  "square (rp_n st) (fst (create_variables st lp)) \<and>
   length (snd (create_variables st lp)) = length (pairs (rp_n st)) \<and>
   inj_on (var_of (fst (create_variables st lp))) (set (pairs (rp_n st)))"
proof -
  have "square (rp_n st) (zero_matrix (rp_n st))"
    by (simp add: square_def zero_matrix_def)
  moreover have "set (pairs (rp_n st)) \<subseteq> {..<rp_n st} \<times> {..<rp_n st}"
    by (auto simp: set_pairs)
  ultimately show ?thesis
    using add_variables[where n = "rp_n st" and X = "zero_matrix (rp_n st)"
        and ps = "pairs (rp_n st)" and S = "rp_S st"
        and ty = "if lp then continuous else binary" and vars = "[]"] distinct_pairs[of "rp_n st"]
    by (simp add: create_variables_def)
qed

lemma variables_matrix_same:
  "length vars = length vars' \<Longrightarrow>
   fst (foldl (add_variable S ty) (X, vars) ps) = fst (foldl (add_variable S' ty') (X, vars') ps)"
proof (induction ps arbitrary: X vars vars')
  case Nil
  then show ?case by simp
next
  case (Cons p ps)
  obtain i j where p: "p = (i, j)" by (cases p)
  have "fst (add_variable S ty (X, vars) p) = fst (add_variable S' ty' (X, vars') p)"
    and "length (snd (add_variable S ty (X, vars) p)) = length (snd (add_variable S' ty' (X, vars') p))"
    using Cons.prems by (simp_all add: add_variable_def p)
  then show ?case
    using Cons.IH[where vars = "snd (add_variable S ty (X, vars) p)"
        and vars' = "snd (add_variable S' ty' (X, vars') p)"
        and X = "fst (add_variable S ty (X, vars) p)"]
    by (metis foldl_Cons prod.collapse)
qed

lemma create_variables_matrix:
  "rp_n st = rp_n st' \<Longrightarrow> fst (create_variables st lp) = fst (create_variables st' lp')"
  unfolding create_variables_def by (simp add: variables_matrix_same)

subsection \<open>The constraints emitted\<close>



lemma filtered_set:
  "set (filtered_constraints r1 r2 r3 X n) =
     {c. \<exists>i j k. i < j \<and> j < k \<and> k < n \<and>
          (c = C1 X i j k \<and> r1 i j k \<or> c = C2 X i j k \<and> r2 i j k \<or> c = C3 X i j k \<and> r3 i j k)}"
  by (auto simp: filtered_constraints_def set_triples add_if_def split: if_splits)



lemma filtered_subset:
  "set (filtered_constraints r1 r2 r3 X n)
     \<subseteq> set (filtered_constraints (\<lambda>i j k. True) (\<lambda>i j k. True) (\<lambda>i j k. True) X n)"
  unfolding filtered_set by blast

lemma RM_filtered:
  "RM_constraints X n = filtered_constraints (\<lambda>i j k. True) (\<lambda>i j k. True) (\<lambda>i j k. True) X n"
  by (simp add: RM_constraints_def filtered_constraints_def add_if_def)

lemma RMalpha_filtered:
  "RMalpha_constraints S X n c =
     filtered_constraints (\<lambda>i j k. S ! i ! j \<ge> c \<or> S ! j ! k \<ge> c)
       (\<lambda>i j k. S ! i ! j \<ge> c \<or> S ! i ! k \<ge> c) (\<lambda>i j k. S ! j ! k \<ge> c \<or> S ! i ! k \<ge> c) X n"
  by (simp add: RMalpha_constraints_def filtered_constraints_def)

lemma RMbeta_filtered:
  "RMbeta_constraints S X n c =
     filtered_constraints (\<lambda>i j k. S ! i ! j + S ! j ! k \<ge> c)
       (\<lambda>i j k. S ! i ! j + S ! i ! k \<ge> c) (\<lambda>i j k. S ! j ! k + S ! i ! k \<ge> c) X n"
  by (simp add: RMbeta_constraints_def filtered_constraints_def)

lemma RMgamma_filtered:
  "RMgamma_constraints S X n c =
     filtered_constraints (\<lambda>i j k. S ! i ! j \<ge> 0 \<and> S ! j ! k \<ge> c \<and> S ! i ! k \<le> 0)
       (\<lambda>i j k. S ! i ! j \<ge> 0 \<and> S ! j ! k \<le> 0 \<and> S ! i ! k \<ge> c)
       (\<lambda>i j k. S ! i ! j \<le> 0 \<and> S ! j ! k \<ge> c \<and> S ! i ! k \<ge> 0) X n"
  by (simp add: RMgamma_constraints_def filtered_constraints_def)

lemma length_RM_constraints: "length (RM_constraints X n) = 3 * (n choose 3)"
proof -
  have "length (RM_constraints X n) = sum_list (map (\<lambda>t. Suc (Suc (Suc 0))) (triples n))"
    by (simp add: RM_constraints_def length_concat comp_def case_prod_unfold)
  then show ?thesis by (simp add: sum_list_triv length_triples)
qed

lemma model_parts:
  "fst (build_model st lp f) = fst (create_variables st lp)"
  "linear_constraints (snd (build_model st lp f)) = f (fst (create_variables st lp))"
  "variables (snd (build_model st lp f)) = snd (create_variables st lp)"
  by (simp_all add: build_model_def case_prod_unfold)


lemma init_tri: "init [[''a'', ''b''], [''a'', ''b''], [''x'', ''y'']] = Inr tri_st"
  by code_simp



lemma tri_st_entries:
  "rp_n tri_st = 3" "rp_S tri_st ! 0 ! Suc 0 = 2" "rp_S tri_st ! Suc 0 ! 2 = -2"
  "rp_S tri_st ! 0 ! 2 = -2"
  by (simp_all add: tri_st_def)





text \<open>
  C7. The base model has exactly \<open>3 * C(n, 3)\<close> constraints, and the constraints of the
  alpha model and of the beta model, for every cut, and of the gamma model are among the
  constraints of the base model (whichever of binary and continuous each is built with).
\<close>

theorem base_count_and_subsets:
  "length (linear_constraints (snd (RM_model st lp))) = 3 * (rp_n st choose 3) \<and>
   set (linear_constraints (snd (RMalpha_model st cutv lp')))
     \<subseteq> set (linear_constraints (snd (RM_model st lp))) \<and>
   set (linear_constraints (snd (RMbeta_model st cutv lp')))
     \<subseteq> set (linear_constraints (snd (RM_model st lp))) \<and>
   set (linear_constraints (snd (RMgamma_model st lp')))
     \<subseteq> set (linear_constraints (snd (RM_model st lp)))"
proof -
  have X: "fst (create_variables st lp') = fst (create_variables st lp)"
    by (rule create_variables_matrix) simp
  have base: "linear_constraints (snd (RM_model st lp)) =
      filtered_constraints (\<lambda>i j k. True) (\<lambda>i j k. True) (\<lambda>i j k. True)
        (fst (create_variables st lp)) (rp_n st)"
    by (simp add: RM_model_def model_parts RM_filtered)
  have "length (linear_constraints (snd (RM_model st lp))) = 3 * (rp_n st choose 3)"
    by (simp add: RM_model_def model_parts length_RM_constraints)
  moreover have "set (linear_constraints (snd (RMalpha_model st cutv lp')))
     \<subseteq> set (linear_constraints (snd (RM_model st lp)))"
    unfolding base by (simp add: RMalpha_model_def model_parts X RMalpha_filtered filtered_subset)
  moreover have "set (linear_constraints (snd (RMbeta_model st cutv lp')))
     \<subseteq> set (linear_constraints (snd (RM_model st lp)))"
    unfolding base by (simp add: RMbeta_model_def model_parts X RMbeta_filtered filtered_subset)
  moreover have "set (linear_constraints (snd (RMgamma_model st lp')))
     \<subseteq> set (linear_constraints (snd (RM_model st lp)))"
    unfolding base by (simp add: RMgamma_model_def model_parts X RMgamma_filtered filtered_subset)
  ultimately show ?thesis by (intro conjI)
qed

theorem base_count_and_subsets_witness:
  "length (linear_constraints (snd (RM_model tri_st False))) = 3 \<and>
   set (linear_constraints (snd (RMalpha_model tri_st 0 True)))
     \<subseteq> set (linear_constraints (snd (RM_model tri_st False)))"
  using base_count_and_subsets[of tri_st False 0 True] by (simp add: tri_st_entries)

section \<open>Decoding when the first variable is positive\<close>

lemma for_each_append:
  "for_each body (xs @ ys) s =
     (case for_each body xs s of Inl e \<Rightarrow> Inl e | Inr s' \<Rightarrow> for_each body ys s')"
  by (induction xs arbitrary: s) (auto split: sum.splits)

lemma join_merged:
  assumes "merged n gs" and "i < n" and "j < n" and "fst gs ! i = 0 \<or> fst gs ! j = 0"
  shows "merged n (join i j gs) \<and> keeps gs (join i j gs) \<and>
         fst (join i j gs) ! i = 0 \<and> fst (join i j gs) ! j = 0"
proof -
  obtain gr gid where gs: "gs = (gr, gid)" by (cases gs)
  have len: "length gr = n" and z: "gr ! 0 = 0" and gid: "gid = 1"
    and vals: "\<And>k. k < n \<Longrightarrow> gr ! k = -1 \<or> gr ! k = 0"
    using assms(1) by (auto simp: merged_def gs)
  show ?thesis
  proof (cases "gr ! i = -1")
    case True
    then have j0: "gr ! j = 0" using assms(4) by (simp add: gs)
    then have "join i j gs = (gr[i := 0], gid)" using True by (simp add: join_def gs)
    then show ?thesis
      using len z gid vals assms(2,3) j0
      by (auto simp: merged_def keeps_def nth_list_update gs)
  next
    case False
    then have i0: "gr ! i = 0" using vals[OF assms(2)] by auto
    then have "join i j gs = (gr[j := 0], gid)" by (simp add: join_def gs)
    then show ?thesis
      using len z gid vals assms(2,3) i0
      by (auto simp: merged_def keeps_def nth_list_update gs)
  qed
qed

lemma keeps_trans: "keeps a b \<Longrightarrow> keeps b c \<Longrightarrow> keeps a c"
  by (simp add: keeps_def)

lemma keeps_refl: "keeps a a"
  by (simp add: keeps_def)

lemma scan_row_merged:
  assumes "i < n" and "\<forall>j<n. X ! i ! j < length x"
  shows "merged n gs \<Longrightarrow> fst gs ! i = 0 \<Longrightarrow> set js \<subseteq> {..<n} \<Longrightarrow>
    \<exists>gs'. for_each (scan_cell X x) (map (Pair i) js) gs = Inr gs' \<and> merged n gs' \<and> keeps gs gs'"
proof (induction js arbitrary: gs)
  case Nil
  then show ?case by (simp add: keeps_refl)
next
  case (Cons j js)
  have j: "j < n" using Cons.prems(3) by simp
  then have rd: "x_at x (X ! i ! j) = Inr (x ! (X ! i ! j))" using assms(2) by (simp add: x_at_def)
  define gs1 where "gs1 = (if x ! (X ! i ! j) > 0 then join i j gs else gs)"
  have step: "scan_cell X x gs (i, j) = Inr gs1" by (simp add: scan_cell_def rd gs1_def)
  have m1: "merged n gs1" and k1: "keeps gs gs1"
    using join_merged[OF Cons.prems(1) assms(1) j] Cons.prems(1,2)
    by (auto simp: gs1_def keeps_refl)
  have i1: "fst gs1 ! i = 0" using k1 Cons.prems(2) by (simp add: keeps_def)
  obtain gs' where "for_each (scan_cell X x) (map (Pair i) js) gs1 = Inr gs'"
    and "merged n gs'" and "keeps gs1 gs'"
    using Cons.IH[OF m1 i1] Cons.prems(3) by auto
  then show ?case using step k1 by (auto intro: keeps_trans)
qed

lemma scan_full_row_merged:
  assumes "i < n" and "\<forall>j<n. X ! i ! j < length x" and "X ! i ! 0 = 0" and "x ! 0 > 0"
    and "merged n gs"
  shows "\<exists>gs'. for_each (scan_cell X x) (map (Pair i) [0..<n]) gs = Inr gs' \<and>
           merged n gs' \<and> keeps gs gs' \<and> fst gs' ! i = 0"
proof -
  have n: "0 < n" using assms(1) by simp
  then have upt: "[0..<n] = 0 # [Suc 0..<n]" by (simp add: upt_conv_Cons)
  have rd: "x_at x (X ! i ! 0) = Inr (x ! 0)" using assms(2,3) n by (auto simp: x_at_def)
  have step: "scan_cell X x gs (i, 0) = Inr (join i 0 gs)"
    using assms(4) by (simp add: scan_cell_def rd)
  have "fst gs ! 0 = 0" using assms(5) by (simp add: merged_def)
  then have j: "merged n (join i 0 gs)" "keeps gs (join i 0 gs)" "fst (join i 0 gs) ! i = 0"
    using join_merged[OF assms(5) assms(1) n] by simp_all
  have sub: "set [Suc 0..<n] \<subseteq> {..<n}" by auto
  obtain gs' where r: "for_each (scan_cell X x) (map (Pair i) [Suc 0..<n]) (join i 0 gs) = Inr gs'"
    and m: "merged n gs'" and k: "keeps (join i 0 gs) gs'"
    using scan_row_merged[OF assms(1,2) j(1) j(3) sub] by auto
  have "fst gs' ! i = 0" using k j(3) by (simp add: keeps_def)
  then show ?thesis using step r m k j(2) by (auto simp: upt intro: keeps_trans)
qed

lemma scan_rows_merged:
  assumes "\<forall>i<n. \<forall>j<n. X ! i ! j < length x" and "\<forall>i<n. X ! i ! 0 = 0" and "x ! 0 > 0"
  shows "merged n gs \<Longrightarrow> set is \<subseteq> {..<n} \<Longrightarrow>
    \<exists>gs'. for_each (scan_cell X x) (concat (map (\<lambda>i. map (Pair i) [0..<n]) is)) gs = Inr gs' \<and>
         merged n gs' \<and> keeps gs gs' \<and> (\<forall>i\<in>set is. fst gs' ! i = 0)"
proof (induction "is" arbitrary: gs)
  case Nil
  then show ?case by (simp add: keeps_refl)
next
  case (Cons i "is")
  have i: "i < n" using Cons.prems(2) by simp
  obtain gs1 where r1: "for_each (scan_cell X x) (map (Pair i) [0..<n]) gs = Inr gs1"
    and m1: "merged n gs1" and k1: "keeps gs gs1" and i1: "fst gs1 ! i = 0"
    using scan_full_row_merged[OF i _ _ assms(3) Cons.prems(1), of X] assms(1,2) i by auto
  obtain gs' where r: "for_each (scan_cell X x) (concat (map (\<lambda>i. map (Pair i) [0..<n]) is)) gs1 = Inr gs'"
    and m: "merged n gs'" and k: "keeps gs1 gs'" and a: "\<forall>i\<in>set is. fst gs' ! i = 0"
    using Cons.IH[OF m1] Cons.prems(2) by auto
  have "fst gs' ! i = 0" using k i1 by (simp add: keeps_def)
  then show ?case using r1 r m k k1 a by (auto simp: for_each_append intro: keeps_trans)
qed

lemma variables_matrix_cells:
  assumes "square n X" and "set ps \<subseteq> {..<n} \<times> {..<n}"
  shows "var_of (fst (foldl (add_variable S ty) (X, vars) ps)) q = var_of X q \<or>
         var_of (fst (foldl (add_variable S ty) (X, vars) ps)) q < length vars + length ps"
  using assms
proof (induction ps arbitrary: X vars)
  case Nil
  then show ?case by simp
next
  case (Cons p ps)
  obtain i j where p: "p = (i, j)" by (cases p)
  have ij: "i < n" "j < n" using Cons.prems(2) by (auto simp: p)
  define X1 where "X1 = fst (add_variable S ty (X, vars) (i, j))"
  define vars1 where "vars1 = snd (add_variable S ty (X, vars) (i, j))"
  have R: "foldl (add_variable S ty) (X, vars) (p # ps) = foldl (add_variable S ty) (X1, vars1) ps"
    by (simp add: X1_def vars1_def p)
  have sq1: "square n X1" and len1: "length vars1 = Suc (length vars)"
    and at: "var_of X1 (i, j) = length vars"
    and other: "\<And>q. q \<noteq> (i, j) \<Longrightarrow> var_of X1 q = var_of X q"
    using add_variable_step[OF Cons.prems(1) ij, where S = S and ty = ty and vars = vars]
    by (simp_all add: X1_def vars1_def)
  have "var_of (fst (foldl (add_variable S ty) (X1, vars1) ps)) q = var_of X1 q \<or>
      var_of (fst (foldl (add_variable S ty) (X1, vars1) ps)) q < length vars1 + length ps"
    by (rule Cons.IH[OF sq1]) (use Cons.prems(2) in auto)
  then show ?case unfolding R using len1 at other[of q] by (cases "q = (i, j)") auto
qed

lemma variables_matrix_bounds:
  assumes "2 \<le> rp_n st"
  shows "\<forall>i<rp_n st. \<forall>j<rp_n st.
           fst (create_variables st lp) ! i ! j < length (snd (create_variables st lp))"
    and "\<forall>i<rp_n st. fst (create_variables st lp) ! i ! 0 = 0"
proof -
  define n where "n = rp_n st"
  define ty where "ty = (if lp then continuous else binary)"
  define X where "X = fst (foldl (add_variable (rp_S st) ty) (zero_matrix n, []) (pairs n))"
  have X: "fst (create_variables st lp) = X"
    by (simp add: create_variables_def X_def n_def ty_def)
  have sq: "square n (zero_matrix n)" by (simp add: square_def zero_matrix_def)
  have sub: "set (pairs n) \<subseteq> {..<n} \<times> {..<n}" by (auto simp: set_pairs)
  have len: "length (snd (create_variables st lp)) = length (pairs n)"
    using create_variables_index[of st lp] by (simp add: n_def)
  have "(0, 1) \<in> set (pairs n)" using assms by (simp add: set_pairs n_def)
  then have pos: "0 < length (pairs n)" by (cases "pairs n") auto
  have zero: "var_of (zero_matrix n) (i, j) = 0" if "i < n" "j < n" for i j
    using that by (simp add: var_of_def zero_matrix_def)
  show "\<forall>i<rp_n st. \<forall>j<rp_n st.
           fst (create_variables st lp) ! i ! j < length (snd (create_variables st lp))"
  proof (intro allI impI)
    fix i j assume "i < rp_n st" "j < rp_n st"
    then have "var_of (zero_matrix n) (i, j) = 0" using zero by (simp add: n_def)
    then have "var_of X (i, j) < length (pairs n)"
      using variables_matrix_cells[OF sq sub, of "rp_S st" ty "[]" "(i, j)"] pos
      by (auto simp: X_def)
    then show "fst (create_variables st lp) ! i ! j < length (snd (create_variables st lp))"
      by (simp add: X len var_of_def)
  qed
  show "\<forall>i<rp_n st. fst (create_variables st lp) ! i ! 0 = 0"
  proof (intro allI impI)
    fix i assume i: "i < rp_n st"
    have "(i, 0) \<notin> set (pairs n)" by (simp add: set_pairs)
    then have "var_of X (i, 0) = var_of (zero_matrix n) (i, 0)"
      using add_variables[OF sq distinct_pairs sub, of "rp_S st" ty "[]"] by (simp add: X_def)
    then show "fst (create_variables st lp) ! i ! 0 = 0"
      using zero[of i 0] i assms by (simp add: X var_of_def n_def)
  qed
qed

lemma alone_assigned:
  "\<forall>k\<in>set ks. gr ! k \<noteq> -1 \<Longrightarrow> foldl alone (gr, gid) ks = (gr, gid)"
  by (induction ks) (auto simp: alone_def)

text \<open>
  Whenever the solver gives the first variable, the one of the pair \<open>(0, 1)\<close>, a
  positive value, the decoder puts every record in group 0, whatever the other values
  are: every cell \<open>(i, 0)\<close> holds 0, the index of that variable.
\<close>

lemma first_pair_merges_all:
  assumes "2 \<le> rp_n st" and "length x = length (snd (create_variables st lp))"
    and "x ! 0 > 0"
  shows "create_partition (rp_n st) (fst (create_variables st lp)) x
           = Inr (replicate (rp_n st) 0)"
proof -
  define n where "n = rp_n st"
  define X where "X = fst (create_variables st lp)"
  have n: "0 < n" "2 \<le> n" using assms(1) by (simp_all add: n_def)
  have inx: "\<forall>i<n. \<forall>j<n. X ! i ! j < length x"
    using variables_matrix_bounds(1)[OF assms(1), of lp] by (simp add: n_def X_def assms(2))
  have col0: "\<forall>i<n. X ! i ! 0 = 0"
    using variables_matrix_bounds(2)[OF assms(1), of lp] by (simp add: n_def X_def)
  define gs0 :: "int list \<times> int" where "gs0 = (replicate n (-1), 0)"
  define gs1 :: "int list \<times> int" where "gs1 = ((replicate n (-1))[0 := 0], 1)"
  have rd: "x_at x (X ! 0 ! 0) = Inr (x ! 0)" using inx col0 n(1) by (auto simp: x_at_def)
  have first: "scan_cell X x gs0 (0, 0) = Inr gs1"
    using assms(3) n(1) by (simp add: scan_cell_def rd join_def gs0_def gs1_def)
  have m1: "merged n gs1" using n(1) by (auto simp: merged_def gs1_def nth_list_update)
  have z1: "fst gs1 ! 0 = 0" using m1 by (simp add: merged_def)
  have sub: "set [Suc 0..<n] \<subseteq> {..<n}" by auto
  obtain gs2 where r2: "for_each (scan_cell X x) (map (Pair 0) [Suc 0..<n]) gs1 = Inr gs2"
    and m2: "merged n gs2"
    using scan_row_merged[OF n(1) _ m1 z1 sub, of X x] inx n(1) by auto
  obtain gs3 where r3: "for_each (scan_cell X x)
        (concat (map (\<lambda>i. map (Pair i) [0..<n]) [Suc 0..<n])) gs2 = Inr gs3"
    and m3: "merged n gs3" and a3: "\<forall>i\<in>set [Suc 0..<n]. fst gs3 ! i = 0"
    using scan_rows_merged[OF inx col0 assms(3) m2 sub] by auto
  have upt: "[0..<n] = 0 # [Suc 0..<n]" using n(1) by (simp add: upt_conv_Cons)
  have cells: "cells n = (0, 0) # map (Pair 0) [Suc 0..<n] @
      concat (map (\<lambda>i. map (Pair i) [0..<n]) [Suc 0..<n])"
  proof -
    have "cells n = concat (map (\<lambda>i. map (Pair i) [0..<n]) [0..<n])"
      by (simp add: cells_def)
    also have "\<dots> = map (Pair 0) [0..<n] @ concat (map (\<lambda>i. map (Pair i) [0..<n]) [Suc 0..<n])"
      by (subst (2) upt) simp
    also have "map (Pair 0) [0..<n] = (0, 0) # map (Pair 0) [Suc 0..<n]"
      by (subst upt) simp
    finally show ?thesis by simp
  qed
  have scan: "for_each (scan_cell X x) (cells n) gs0 = Inr gs3"
    unfolding cells by (simp add: first for_each_append r2 r3)
  have all0: "fst gs3 ! k = 0" if "k < n" for k
  proof (cases "k = 0")
    case True
    then show ?thesis using m3 by (simp add: merged_def)
  next
    case False
    then show ?thesis using a3 that by simp
  qed
  have len3: "length (fst gs3) = n" and id3: "snd gs3 = 1" using m3 by (simp_all add: merged_def)
  have eq: "fst gs3 = replicate n 0"
    using all0 len3 by (simp add: list_eq_iff_nth_eq)
  have gs3: "gs3 = (replicate n 0, 1)" using eq id3 by (cases gs3) simp
  have "foldl alone (replicate n 0, 1) [0..<n] = (replicate n 0, 1)"
    by (rule alone_assigned) simp
  then show ?thesis
    unfolding n_def[symmetric] X_def[symmetric]
    using scan by (simp add: create_partition_def gs0_def gs3)
qed

end
